theory Spec2Isabelle
  imports Complex_Main
begin

section \<open>Values and errors\<close>

text \<open>
  The scraper handles decoded JSON: the search response of the provider, its items and
  the values stored in the flattened records. A decoded JSON value is \<open>None\<close>, a
  boolean, a number, a string, a list, or a dict. A dict is kept as the list of its
  entries in insertion order; \<open>map_of\<close> looks a key up. A dict holds each key once;
  no result below needs that. Numbers are integers: the scraper computes with none of
  the numbers of a response, it only passes them on.
\<close>

datatype json =
    JNull
  | JBool bool
  | JInt int
  | JStr string
  | JList "json list"
  | JObj "(string \<times> json) list"

text \<open>
  The exceptions a run can end with. \<open>ZeroDivisionError\<close>, \<open>AttributeError\<close>,
  \<open>KeyError\<close>, \<open>TypeError\<close> and \<open>OverflowError\<close> are raised by the interpreter on
  the operations the source performs; \<open>HttpError\<close> stands for any failure of the
  provider, opaque to the scraper. \<open>InvalidArgument\<close> is the error kind the design
  document names for bad planner arguments; no statement of the source raises it.
\<close>

datatype py_error =
    ZeroDivisionError
  | AttributeError
  | KeyError
  | TypeError
  | OverflowError
  | HttpError string
  | InvalidArgument

section \<open>The batch planner\<close>

text \<open>
  \<^verbatim>\<open>
  def split_batches(N: int, X: int) -> List[int]:
      quotient, remainder = divmod(N, X)
      return [X] * quotient + ([remainder] if remainder else [])
  \<close>
  Python's \<open>divmod\<close> on integers rounds the quotient towards minus infinity and gives
  the remainder the sign of the divisor, as \<open>div\<close> and \<open>mod\<close> on \<open>int\<close> do; it raises
  \<open>ZeroDivisionError\<close> on a zero divisor.

  \<open>[x] * n\<close> converts the count to the index type of the interpreter first and
  raises \<open>OverflowError\<close> when it does not fit: on a 64-bit build the count must lie
  between \<open>-2^63\<close> and \<open>2^63 - 1\<close>, for negative counts as well. A count in that range
  that is not positive gives the empty list. Whether the machine has the memory for a
  long list is outside the model: a list of any length within the index range is
  taken to fit, so no \<open>MemoryError\<close> is modelled.
\<close>

definition py_divmod :: "int \<Rightarrow> int \<Rightarrow> py_error + int \<times> int" where
  "py_divmod a b = (if b = 0 then Inl ZeroDivisionError else Inr (a div b, a mod b))"

definition ssize_min :: int where
  "ssize_min = - (2 ^ 63)"

definition ssize_max :: int where
  "ssize_max = 2 ^ 63 - 1"

definition list_repeat :: "'a \<Rightarrow> int \<Rightarrow> py_error + 'a list" where
  "list_repeat x n =
     (if n < ssize_min \<or> ssize_max < n then Inl OverflowError
      else Inr (replicate (nat n) x))"

definition split_batches :: "int \<Rightarrow> int \<Rightarrow> py_error + int list" where
  "split_batches N X =
     (case py_divmod N X of
        Inl e \<Rightarrow> Inl e
      | Inr (quot, rem) \<Rightarrow>
          (case list_repeat X quot of
             Inl e \<Rightarrow> Inl e
           | Inr batches \<Rightarrow> Inr (batches @ (if rem \<noteq> 0 then [rem] else []))))"

section \<open>Dictionary access\<close>

text \<open>
  \<open>d.get(k, default)\<close> exists on a dict only: on any other value the attribute lookup
  raises \<open>AttributeError\<close>. A key that is present with the value \<open>None\<close> yields
  \<open>None\<close>, not the default.
\<close>

fun dict_get :: "json \<Rightarrow> string \<Rightarrow> json \<Rightarrow> py_error + json" where
  "dict_get (JObj kvs) k d = Inr (case map_of kvs k of None \<Rightarrow> d | Some v \<Rightarrow> v)"
| "dict_get _ k d = Inl AttributeError"

text \<open>
  \<open>d[k]\<close> with a string key: \<open>KeyError\<close> on a dict that lacks the key,
  \<open>TypeError\<close> on every other value (a list or a string takes no string index, the
  rest is not subscriptable).
\<close>

fun dict_getitem :: "json \<Rightarrow> string \<Rightarrow> py_error + json" where
  "dict_getitem (JObj kvs) k = (case map_of kvs k of None \<Rightarrow> Inl KeyError | Some v \<Rightarrow> Inr v)"
| "dict_getitem _ k = Inl TypeError"

text \<open>
  What a \<open>for\<close> clause iterates over: the elements of a list, the keys of a dict, the
  one-character strings of a string; \<open>TypeError\<close> on a value that is not iterable.
\<close>

fun py_iter :: "json \<Rightarrow> py_error + json list" where
  "py_iter (JList xs) = Inr xs"
| "py_iter (JObj kvs) = Inr (map (\<lambda>kv. JStr (fst kv)) kvs)"
| "py_iter (JStr s) = Inr (map (\<lambda>c. JStr [c]) s)"
| "py_iter _ = Inl TypeError"

text \<open>Sequencing: the first exception ends the computation.\<close>

fun and_then :: "'e + 'a \<Rightarrow> ('a \<Rightarrow> 'e + 'b) \<Rightarrow> 'e + 'b" where
  "and_then (Inl e) f = Inl e"
| "and_then (Inr x) f = f x"

text \<open>A list comprehension \<open>[f(i) for i in xs]\<close>: left to right, ended by the first exception.\<close>

fun comprehension :: "('a \<Rightarrow> 'e + 'b) \<Rightarrow> 'a list \<Rightarrow> 'e + 'b list" where
  "comprehension f [] = Inr []"
| "comprehension f (x # xs) =
     (case f x of
        Inl e \<Rightarrow> Inl e
      | Inr y \<Rightarrow> (case comprehension f xs of Inl e \<Rightarrow> Inl e | Inr ys \<Rightarrow> Inr (y # ys)))"

section \<open>The normalizer\<close>

text \<open>
  \<^verbatim>\<open>
  def parse_youtube_response(response: dict) -> dict:
      data = response.get("snippet", {})
      etag = response.get("etag")
      kind = response.get("kind")
      videoId = response.get("id", {}).get("videoId")
      channelId = data.get("channelId")
      flattened_data = {
          "etag": etag, "kind": kind, "videoId": videoId, "channelId": channelId,
          "publishedAt": data.get("publishedAt"), "title": data.get("title"),
          "description": data.get("description"), "thumbnails": data.get("thumbnails"),
          "channelTitle": data.get("channelTitle"),
          "liveBroadcastContent": data.get("liveBroadcastContent"),
          "publishTime": data.get("publishTime"),
      }
      flattened_data = {k: v for k, v in flattened_data.items() if v is not None}
      return flattened_data
  \<close>
  The flattened record is a dict as well: the list of its entries, in the order of the
  dict display.
\<close>

type_synonym result_record = "(string \<times> json) list"

definition parse_youtube_response :: "json \<Rightarrow> py_error + result_record" where
  "parse_youtube_response response =
     and_then (dict_get response ''snippet'' (JObj [])) (\<lambda>data.
     and_then (dict_get response ''etag'' JNull) (\<lambda>etag.
     and_then (dict_get response ''kind'' JNull) (\<lambda>kind.
     and_then (dict_get response ''id'' (JObj [])) (\<lambda>ident.
     and_then (dict_get ident ''videoId'' JNull) (\<lambda>videoId.
     and_then (dict_get data ''channelId'' JNull) (\<lambda>channelId.
     and_then (dict_get data ''publishedAt'' JNull) (\<lambda>publishedAt.
     and_then (dict_get data ''title'' JNull) (\<lambda>title.
     and_then (dict_get data ''description'' JNull) (\<lambda>description.
     and_then (dict_get data ''thumbnails'' JNull) (\<lambda>thumbnails.
     and_then (dict_get data ''channelTitle'' JNull) (\<lambda>channelTitle.
     and_then (dict_get data ''liveBroadcastContent'' JNull) (\<lambda>liveBroadcastContent.
     and_then (dict_get data ''publishTime'' JNull) (\<lambda>publishTime.
       Inr (filter (\<lambda>kv. snd kv \<noteq> JNull)
         [(''etag'', etag),
          (''kind'', kind),
          (''videoId'', videoId),
          (''channelId'', channelId),
          (''publishedAt'', publishedAt),
          (''title'', title),
          (''description'', description),
          (''thumbnails'', thumbnails),
          (''channelTitle'', channelTitle),
          (''liveBroadcastContent'', liveBroadcastContent),
          (''publishTime'', publishTime)]))))))))))))))"

text \<open>
  The dict display of the normalizer, for a raw item with entries \<open>kvs\<close>, snippet
  entries \<open>s\<close> and id entries \<open>i\<close>: \<open>d.get(k)\<close> is \<open>None\<close> for a missing key.
\<close>

definition lookup_or_none :: "(string \<times> json) list \<Rightarrow> string \<Rightarrow> json" where
  "lookup_or_none kvs k = (case map_of kvs k of None \<Rightarrow> JNull | Some v \<Rightarrow> v)"

definition flattened :: "(string \<times> json) list \<Rightarrow> (string \<times> json) list \<Rightarrow> (string \<times> json) list \<Rightarrow> (string \<times> json) list" where
  "flattened kvs s i =
     [(''etag'', lookup_or_none kvs ''etag''),
      (''kind'', lookup_or_none kvs ''kind''),
      (''videoId'', lookup_or_none i ''videoId''),
      (''channelId'', lookup_or_none s ''channelId''),
      (''publishedAt'', lookup_or_none s ''publishedAt''),
      (''title'', lookup_or_none s ''title''),
      (''description'', lookup_or_none s ''description''),
      (''thumbnails'', lookup_or_none s ''thumbnails''),
      (''channelTitle'', lookup_or_none s ''channelTitle''),
      (''liveBroadcastContent'', lookup_or_none s ''liveBroadcastContent''),
      (''publishTime'', lookup_or_none s ''publishTime'')]"

text \<open>
  Where each key of the record is read from in the raw item, as the dict display has
  it: \<open>etag\<close> and \<open>kind\<close> at the top, \<open>videoId\<close> under \<open>id\<close>, the rest under
  \<open>snippet\<close>. \<open>json_at\<close> follows such a path; it is \<open>None\<close> when a key on the path is
  missing.
\<close>

definition record_keys :: "string list" where
  "record_keys = [''etag'', ''kind'', ''videoId'', ''channelId'', ''publishedAt'', ''title'',
     ''description'', ''thumbnails'', ''channelTitle'', ''liveBroadcastContent'',
     ''publishTime'']"

definition source_path :: "string \<Rightarrow> string list" where
  "source_path k =
     (if k = ''etag'' \<or> k = ''kind'' then [k]
      else if k = ''videoId'' then [''id'', k]
      else [''snippet'', k])"

fun json_at :: "json \<Rightarrow> string list \<Rightarrow> json option" where
  "json_at v [] = Some v"
| "json_at (JObj kvs) (k # ks) = (case map_of kvs k of None \<Rightarrow> None | Some v \<Rightarrow> json_at v ks)"
| "json_at _ (k # ks) = None"

text \<open>
  A raw item of the shape the provider documents: a dict whose \<open>snippet\<close> and \<open>id\<close>
  entries, when present, are dicts.
\<close>

fun is_dict :: "json \<Rightarrow> bool" where
  "is_dict (JObj kvs) = True"
| "is_dict _ = False"

definition dict_or_absent :: "json option \<Rightarrow> bool" where
  "dict_or_absent v = (case v of None \<Rightarrow> True | Some x \<Rightarrow> is_dict x)"

definition raw_item :: "json \<Rightarrow> bool" where
  "raw_item item =
     (is_dict item \<and> dict_or_absent (json_at item [''snippet'']) \<and>
      dict_or_absent (json_at item [''id'']))"

section \<open>The clock and the lower bound of the search\<close>

text \<open>
  \<^verbatim>\<open>
  week_ago_dt = datetime.now() - timedelta(weeks=amount_weeks)
  week_ago_formatted = week_ago_dt.strftime("%Y-%m-%dT%H:%M:%SZ")
  \<close>
  \<open>datetime.now()\<close> without a time zone argument is the naive local time: the wall
  clock of the machine's zone. The clock of a run is the POSIX time (whole seconds, the
  format drops the microseconds) and the offset of the local zone from UTC in seconds.
  A naive datetime is counted in seconds from 1970-01-01T00:00:00 on its own calendar.
  The datetime library is modelled from its documentation: \<open>timedelta\<close> holds at most
  999999999 days, a datetime lies in the years 1 to 9999, and both raise
  \<open>OverflowError\<close> beyond; the calendar is the proleptic Gregorian one. \<open>%Y\<close> is
  the year in decimal without padding, as CPython prints it with the C library of
  Linux: a year below 1000 has fewer than four digits. The other fields are padded to
  two digits.
\<close>

record clock =
  posix_seconds :: int
  utc_offset :: int

definition datetime_now :: "clock \<Rightarrow> int" where
  "datetime_now c = posix_seconds c + utc_offset c"

definition datetime_min :: int where
  "datetime_min = - 62135596800"

definition datetime_max :: int where
  "datetime_max = 253402300799"

definition timedelta_weeks :: "int \<Rightarrow> py_error + int" where
  "timedelta_weeks w =
     (if \<bar>7 * w\<bar> \<le> 999999999 then Inr (604800 * w) else Inl OverflowError)"

definition datetime_sub :: "int \<Rightarrow> int \<Rightarrow> py_error + int" where
  "datetime_sub t d =
     (if datetime_min \<le> t - d \<and> t - d \<le> datetime_max then Inr (t - d)
      else Inl OverflowError)"

definition civil_from_days :: "int \<Rightarrow> int \<times> int \<times> int" where
  "civil_from_days days =
     (let z = days + 719468;
          era = z div 146097;
          doe = z mod 146097;
          yoe = (doe - doe div 1460 + doe div 36524 - doe div 146096) div 365;
          doy = doe - (365 * yoe + yoe div 4 - yoe div 100);
          mp = (5 * doy + 2) div 153;
          d = doy - (153 * mp + 2) div 5 + 1;
          m = (if mp < 10 then mp + 3 else mp - 9);
          y = yoe + era * 400 + (if m \<le> 2 then 1 else 0)
      in (y, m, d))"

fun zero_pad :: "nat \<Rightarrow> int \<Rightarrow> string" where
  "zero_pad 0 n = []"
| "zero_pad (Suc k) n = zero_pad k (n div 10) @ [''0123456789'' ! nat (n mod 10)]"

definition year_digits :: "int \<Rightarrow> string" where
  "year_digits y =
     (if y < 10 then zero_pad 1 y
      else if y < 100 then zero_pad 2 y
      else if y < 1000 then zero_pad 3 y
      else zero_pad 4 y)"

definition strftime_iso_z :: "int \<Rightarrow> string" where
  "strftime_iso_z t =
     (case civil_from_days (t div 86400) of
        (y, m, d) \<Rightarrow>
          year_digits y @ ''-'' @ zero_pad 2 m @ ''-'' @ zero_pad 2 d @ ''T'' @
          zero_pad 2 (t mod 86400 div 3600) @ '':'' @
          zero_pad 2 (t mod 3600 div 60) @ '':'' @
          zero_pad 2 (t mod 60) @ ''Z'')"

definition week_ago_formatted :: "clock \<Rightarrow> int \<Rightarrow> py_error + string" where
  "week_ago_formatted c amount_weeks =
     and_then (timedelta_weeks amount_weeks) (\<lambda>delta.
     and_then (datetime_sub (datetime_now c) delta) (\<lambda>week_ago_dt.
       Inr (strftime_iso_z week_ago_dt)))"

section \<open>The search service\<close>

text \<open>
  \<^verbatim>\<open>
  def search_videos(self, subject, maxResults, publishedAfter, pageToken=None):
      request = self.service.search().list(
          part="snippet", maxResults=maxResults, q=subject,
          publishedAfter=publishedAfter, pageToken=pageToken)
      search_response = request.execute()
      next_page_token = search_response.get("nextPageToken")
      return search_response, next_page_token
  \<close>
  The provider is outside the program. It is a parameter of the model: a function
  from the request and the state of the world to the decoded response (or the
  exception that \<open>execute\<close> raises) and the next state of the world. The page token is
  whatever the previous response held, \<open>None\<close> included.
\<close>

record request =
  part :: string
  maxResults :: int
  q :: string
  publishedAfter :: string
  pageToken :: json

type_synonym 'w service = "request \<Rightarrow> 'w \<Rightarrow> (py_error + json) \<times> 'w"

definition search_videos ::
  "'w service \<Rightarrow> string \<Rightarrow> int \<Rightarrow> string \<Rightarrow> json \<Rightarrow> 'w \<Rightarrow> (py_error + json \<times> json) \<times> 'w" where
  "search_videos execute subject max_results published_after page_token w =
     (case execute \<lparr>part = ''snippet'', maxResults = max_results, q = subject,
                     publishedAfter = published_after, pageToken = page_token\<rparr> w of
        (Inl e, w') \<Rightarrow> (Inl e, w')
      | (Inr search_response, w') \<Rightarrow>
          (case dict_get search_response ''nextPageToken'' JNull of
             Inl e \<Rightarrow> (Inl e, w')
           | Inr next_page_token \<Rightarrow> (Inr (search_response, next_page_token), w')))"

section \<open>The pagination driver\<close>

text \<open>
  \<^verbatim>\<open>
  MAX_YOUTUBE_API_RESULTS = 50
  batch_sizes = split_batches(video_list_size, MAX_YOUTUBE_API_RESULTS)
  search_results = []
  youtube_service = YoutubeService(os.getenv("GOOGLE_YOUTUBE_API_KEY"))
  page_token = None
  for batch_size in batch_sizes:
      search_response, page_token = youtube_service.search_videos(
          subject, batch_size, week_ago_formatted, page_token)
      search_results.append(
          [parse_youtube_response(i) for i in search_response["items"]])
  return list(chain(*search_results))
  \<close>
  The loop is a recursion over the batch sizes that carries the page token, the
  accumulated pages and the world. No statement catches an exception, so the first
  one ends the run. The construction of the service object is part of the parameter.
\<close>

definition MAX_YOUTUBE_API_RESULTS :: int where
  "MAX_YOUTUBE_API_RESULTS = 50"

definition page_items :: "json \<Rightarrow> py_error + json list" where
  "page_items search_response = and_then (dict_getitem search_response ''items'') py_iter"

definition page_records :: "json \<Rightarrow> py_error + result_record list" where
  "page_records search_response =
     and_then (page_items search_response) (comprehension parse_youtube_response)"

fun fetch_batches ::
  "'w service \<Rightarrow> string \<Rightarrow> string \<Rightarrow> int list \<Rightarrow> json \<Rightarrow> result_record list list \<Rightarrow> 'w \<Rightarrow>
   (py_error + result_record list list) \<times> 'w" where
  "fetch_batches execute subject published_after [] page_token search_results w =
     (Inr search_results, w)"
| "fetch_batches execute subject published_after (batch_size # rest) page_token search_results w =
     (case search_videos execute subject batch_size published_after page_token w of
        (Inl e, w') \<Rightarrow> (Inl e, w')
      | (Inr (search_response, next_page_token), w') \<Rightarrow>
          (case page_records search_response of
             Inl e \<Rightarrow> (Inl e, w')
           | Inr records \<Rightarrow>
               fetch_batches execute subject published_after rest next_page_token
                 (search_results @ [records]) w'))"

definition search_youtube ::
  "'w service \<Rightarrow> clock \<Rightarrow> string \<Rightarrow> int \<Rightarrow> int \<Rightarrow> 'w \<Rightarrow> (py_error + result_record list) \<times> 'w" where
  "search_youtube execute c subject video_list_size amount_weeks w =
     (case week_ago_formatted c amount_weeks of
        Inl e \<Rightarrow> (Inl e, w)
      | Inr published_after \<Rightarrow>
          (case split_batches video_list_size MAX_YOUTUBE_API_RESULTS of
             Inl e \<Rightarrow> (Inl e, w)
           | Inr batch_sizes \<Rightarrow>
               (case fetch_batches execute subject published_after batch_sizes JNull [] w of
                  (Inl e, w') \<Rightarrow> (Inl e, w')
                | (Inr search_results, w') \<Rightarrow> (Inr (concat search_results), w'))))"

section \<open>Observing the calls\<close>

text \<open>
  To speak about the calls a run makes, the service is wrapped so that the world
  also holds the log of the calls made so far: each call appends its request and what
  the service answered. The wrapper changes nothing else.
\<close>

type_synonym call = "request \<times> (py_error + json)"

definition logged :: "'w service \<Rightarrow> ('w \<times> call list) service" where
  "logged execute req s =
     (case s of (w, calls) \<Rightarrow>
        (case execute req w of (r, w') \<Rightarrow> (r, (w', calls @ [(req, r)]))))"

text \<open>The token a call handed back to the driver: \<open>search_response.get("nextPageToken")\<close>.\<close>

definition returned_token :: "py_error + json \<Rightarrow> json" where
  "returned_token r =
     (case r of
        Inl e \<Rightarrow> JNull
      | Inr search_response \<Rightarrow>
          (case dict_get search_response ''nextPageToken'' JNull of
             Inl e \<Rightarrow> JNull
           | Inr t \<Rightarrow> t))"

text \<open>
  A fake service for tests: the world is the list of the answers still to give, and
  a call past the end of the script fails.
\<close>

fun scripted :: "(py_error + json) list service" where
  "scripted req [] = (Inl (HttpError ''no more answers''), [])"
| "scripted req (r # rs) = (r, rs)"

definition page :: "json list \<Rightarrow> json \<Rightarrow> json" where
  "page items token = JObj [(''items'', JList items), (''nextPageToken'', token)]"

text \<open>
  A page the driver can consume: \<open>search_response["items"]\<close> exists, is iterable, and
  every item of it parses.
\<close>

definition well_formed_page :: "json \<Rightarrow> bool" where
  "well_formed_page p = (case page_records p of Inl e \<Rightarrow> False | Inr records \<Rightarrow> True)"

text \<open>
  The calls of a run, computed from the service alone: the call for the first batch
  size, then, if it succeeded with a page the driver can consume, the calls for the
  remaining batch sizes with the returned token.
\<close>

fun calls_made :: "'w service \<Rightarrow> string \<Rightarrow> string \<Rightarrow> int list \<Rightarrow> json \<Rightarrow> 'w \<Rightarrow> call list" where
  "calls_made execute subject published_after [] page_token w = []"
| "calls_made execute subject published_after (batch_size # rest) page_token w =
     (case execute \<lparr>part = ''snippet'', maxResults = batch_size, q = subject,
                     publishedAfter = published_after, pageToken = page_token\<rparr> w of
        (r, w') \<Rightarrow>
          (\<lparr>part = ''snippet'', maxResults = batch_size, q = subject,
            publishedAfter = published_after, pageToken = page_token\<rparr>, r) #
          (case r of
             Inl e \<Rightarrow> []
           | Inr p \<Rightarrow>
               if well_formed_page p
               then calls_made execute subject published_after rest (returned_token r) w'
               else []))"

text \<open>The shape of a flattened record: known keys, each once, no \<open>None\<close> value.\<close>

definition well_shaped :: "result_record \<Rightarrow> bool" where
  "well_shaped r =
     (list_all (\<lambda>kv. fst kv \<in> set record_keys \<and> snd kv \<noteq> JNull) r \<and> distinct (map fst r))"

section \<open>Test fixtures\<close>

text \<open>
  The driver scenario of the design document: a clock in UTC, a raw item, and scripts
  of answers; \<open>tokyo_clock\<close> is the same instant on a machine nine hours ahead of
  UTC. \<open>fake_script\<close> answers pages of 50, 50 and 20 items with the tokens
  \<open>t1\<close>, \<open>t2\<close> and none; \<open>restart_script\<close> hands back no token on its first page and
  a token on its second; \<open>failing_script\<close> fails on the second call;
  \<open>mixed_script\<close> answers a page of two different items and a page of a third.
\<close>

definition fake_clock :: clock where
  "fake_clock = \<lparr>posix_seconds = 1700000000, utc_offset = 0\<rparr>"

definition tokyo_clock :: clock where
  "tokyo_clock = \<lparr>posix_seconds = 1700000000, utc_offset = 32400\<rparr>"

definition fake_item :: json where
  "fake_item =
     JObj [(''etag'', JStr ''e''), (''id'', JObj [(''videoId'', JStr ''v'')]),
           (''snippet'', JObj [(''title'', JStr ''t'')])]"

definition fake_record :: result_record where
  "fake_record = [(''etag'', JStr ''e''), (''videoId'', JStr ''v''), (''title'', JStr ''t'')]"

definition fake_script :: "(py_error + json) list" where
  "fake_script =
     [Inr (page (replicate 50 fake_item) (JStr ''t1'')),
      Inr (page (replicate 50 fake_item) (JStr ''t2'')),
      Inr (page (replicate 20 fake_item) JNull)]"

definition restart_script :: "(py_error + json) list" where
  "restart_script =
     [Inr (page [fake_item] JNull),
      Inr (page [fake_item] (JStr ''t1'')),
      Inr (page [fake_item] JNull)]"

definition failing_script :: "(py_error + json) list" where
  "failing_script =
     [Inr (page [fake_item] (JStr ''t1'')),
      Inl (HttpError ''quotaExceeded''),
      Inr (page [fake_item] JNull)]"

definition item_a :: json where
  "item_a = JObj [(''etag'', JStr ''a''), (''snippet'', JObj [(''title'', JStr ''first'')])]"

definition item_b :: json where
  "item_b = JObj [(''etag'', JStr ''b''), (''id'', JObj [(''videoId'', JStr ''v'')])]"

definition item_c :: json where
  "item_c = JObj [(''kind'', JStr ''youtube#searchResult'')]"

definition record_a :: result_record where
  "record_a = [(''etag'', JStr ''a''), (''title'', JStr ''first'')]"

definition record_b :: result_record where
  "record_b = [(''etag'', JStr ''b''), (''videoId'', JStr ''v'')]"

definition record_c :: result_record where
  "record_c = [(''kind'', JStr ''youtube#searchResult'')]"

definition mixed_script :: "(py_error + json) list" where
  "mixed_script =
     [Inr (page [item_a, item_b] (JStr ''t1'')),
      Inr (page [item_c] JNull)]"

definition fake_request :: "int \<Rightarrow> json \<Rightarrow> request" where
  "fake_request batch_size page_token =
     \<lparr>part = ''snippet'', maxResults = batch_size, q = ''langchain'',
      publishedAfter = ''2023-10-17T22:13:20Z'', pageToken = page_token\<rparr>"

section \<open>Properties of the batch planner\<close>















section \<open>Properties of the normalizer\<close>

lemma map_of_filter_value:
  "distinct (map fst xs) \<Longrightarrow>
   map_of (filter (\<lambda>kv. snd kv \<noteq> JNull) xs) k =
     (case map_of xs k of None \<Rightarrow> None | Some v \<Rightarrow> if v = JNull then None else Some v)"
proof (induction xs)
  case Nil
  then show ?case by simp
next
  case (Cons x xs)
  obtain a b where x: "x = (a, b)" by (cases x)
  have "map_of xs a = None" using Cons.prems x by (simp add: map_of_eq_None_iff)
  then show ?case using Cons x by (auto split: option.splits)
qed

lemma dict_get_Inr: "dict_get v k d = Inr x \<Longrightarrow> \<exists>kvs. v = JObj kvs"
  by (cases v) simp_all

lemma parse_dict:
  assumes "(case map_of kvs ''snippet'' of None \<Rightarrow> JObj [] | Some v \<Rightarrow> v) = JObj s"
    and "(case map_of kvs ''id'' of None \<Rightarrow> JObj [] | Some v \<Rightarrow> v) = JObj i"
  shows "parse_youtube_response (JObj kvs) =
    Inr (filter (\<lambda>kv. snd kv \<noteq> JNull) (flattened kvs s i))"
  using assms
  by (simp add: parse_youtube_response_def flattened_def lookup_or_none_def)

lemma parse_Inr:
  assumes "parse_youtube_response item = Inr r"
  shows "\<exists>kvs s i. item = JObj kvs \<and>
     (case map_of kvs ''snippet'' of None \<Rightarrow> JObj [] | Some v \<Rightarrow> v) = JObj s \<and>
     (case map_of kvs ''id'' of None \<Rightarrow> JObj [] | Some v \<Rightarrow> v) = JObj i \<and>
     r = filter (\<lambda>kv. snd kv \<noteq> JNull) (flattened kvs s i)"
proof -
  obtain kvs where item: "item = JObj kvs"
    using assms by (cases item) (simp_all add: parse_youtube_response_def)
  let ?data = "case map_of kvs ''snippet'' of None \<Rightarrow> JObj [] | Some v \<Rightarrow> v"
  let ?ident = "case map_of kvs ''id'' of None \<Rightarrow> JObj [] | Some v \<Rightarrow> v"
  obtain i where i: "?ident = JObj i"
    using assms item by (cases ?ident) (simp_all add: parse_youtube_response_def)
  obtain s where s: "?data = JObj s"
    using assms item i by (cases ?data) (simp_all add: parse_youtube_response_def)
  show ?thesis using parse_dict [OF s i] assms item s i by simp
qed

lemma distinct_flattened: "distinct (map fst (flattened kvs s i))"
  by (simp add: flattened_def)


lemma json_at_single: "json_at (JObj kvs) [k] = map_of kvs k"
  by (cases "map_of kvs k") simp_all

lemma map_of_flattened:
  assumes "(case map_of kvs ''snippet'' of None \<Rightarrow> JObj [] | Some v \<Rightarrow> v) = JObj s"
    and "(case map_of kvs ''id'' of None \<Rightarrow> JObj [] | Some v \<Rightarrow> v) = JObj i"
  shows "(case map_of (flattened kvs s i) k of None \<Rightarrow> None
          | Some v \<Rightarrow> if v = JNull then None else Some v) =
    (if k \<in> set record_keys
     then (case json_at (JObj kvs) (source_path k) of None \<Rightarrow> None
           | Some v \<Rightarrow> if v = JNull then None else Some v)
     else None)"
proof (cases "k \<in> set record_keys")
  case False
  then show ?thesis by (simp add: flattened_def record_keys_def)
next
  case True
  then have "k = ''etag'' \<or> k = ''kind'' \<or> k = ''videoId'' \<or> k = ''channelId''
    \<or> k = ''publishedAt'' \<or> k = ''title'' \<or> k = ''description'' \<or> k = ''thumbnails''
    \<or> k = ''channelTitle'' \<or> k = ''liveBroadcastContent'' \<or> k = ''publishTime''"
    by (simp add: record_keys_def)
  then show ?thesis
    using assms
    by (elim disjE)
       (simp_all add: flattened_def record_keys_def source_path_def lookup_or_none_def
          json_at_single split: option.splits)
qed

lemma map_of_parse:
  assumes "parse_youtube_response item = Inr r"
  shows "map_of r k =
    (if k \<in> set record_keys
     then (case json_at item (source_path k) of None \<Rightarrow> None
           | Some v \<Rightarrow> if v = JNull then None else Some v)
     else None)"
proof -
  obtain kvs s i where item: "item = JObj kvs"
    and s: "(case map_of kvs ''snippet'' of None \<Rightarrow> JObj [] | Some v \<Rightarrow> v) = JObj s"
    and i: "(case map_of kvs ''id'' of None \<Rightarrow> JObj [] | Some v \<Rightarrow> v) = JObj i"
    and r: "r = filter (\<lambda>kv. snd kv \<noteq> JNull) (flattened kvs s i)"
    using parse_Inr [OF assms] by blast
  have "map_of r k = (case map_of (flattened kvs s i) k of None \<Rightarrow> None
          | Some v \<Rightarrow> if v = JNull then None else Some v)"
    unfolding r by (rule map_of_filter_value [OF distinct_flattened])
  then show ?thesis using map_of_flattened [OF s i, of k] item by simp
qed

lemma parse_shape:
  assumes "parse_youtube_response item = Inr r"
  shows "set (map fst r) \<subseteq> set record_keys" and "JNull \<notin> snd ` set r"
    and "distinct (map fst r)"
proof -
  obtain kvs s i where
    r: "r = filter (\<lambda>kv. snd kv \<noteq> JNull) (flattened kvs s i)"
    using parse_Inr [OF assms] by blast
  have "set (map fst (flattened kvs s i)) = set record_keys"
    by (simp add: flattened_def record_keys_def)
  then show "set (map fst r) \<subseteq> set record_keys" unfolding r by auto
  show "JNull \<notin> snd ` set r" unfolding r by auto
  show "distinct (map fst r)"
    unfolding r using distinct_flattened [of kvs s i] by (rule distinct_map_filter)
qed

lemma raw_item_parse:
  assumes "raw_item item"
  shows "\<exists>r. parse_youtube_response item = Inr r"
proof -
  obtain kvs where item: "item = JObj kvs"
    using assms by (cases item) (simp_all add: raw_item_def)
  have "\<exists>s. (case map_of kvs ''snippet'' of None \<Rightarrow> JObj [] | Some v \<Rightarrow> v) = JObj s"
    using assms item
    by (cases "map_of kvs ''snippet''")
       (auto simp: raw_item_def dict_or_absent_def elim: is_dict.elims)
  moreover have "\<exists>i. (case map_of kvs ''id'' of None \<Rightarrow> JObj [] | Some v \<Rightarrow> v) = JObj i"
    using assms item
    by (cases "map_of kvs ''id''")
       (auto simp: raw_item_def dict_or_absent_def elim: is_dict.elims)
  ultimately show ?thesis using parse_dict item by blast
qed

text \<open>
  C7. For a raw item whose snippet dict has no \<open>description\<close> entry, every record
  the normalizer returns has no \<open>description\<close> key, and the normalizer does return a
  record when the item has the documented shape. In general an entry of the record is
  exactly a key of the dict display whose value in the raw item is present and not
  \<open>None\<close>, with that value; so a record may hold any subset of the keys, the empty
  record included.
\<close>

theorem parse_omits_absent_description:
  "(json_at item [''snippet''] = Some (JObj s) \<and> map_of s ''description'' = None \<longrightarrow>
      (\<forall>r. parse_youtube_response item = Inr r \<longrightarrow>
         ''description'' \<notin> fst ` set r \<and> map_of r ''description'' = None) \<and>
      (raw_item item \<longrightarrow> (\<exists>r. parse_youtube_response item = Inr r))) \<and>
   (\<forall>r k. parse_youtube_response item = Inr r \<longrightarrow>
      map_of r k =
        (if k \<in> set record_keys
         then (case json_at item (source_path k) of
                 None \<Rightarrow> None
               | Some v \<Rightarrow> if v = JNull then None else Some v)
         else None)) \<and>
   parse_youtube_response (JObj []) = Inr []"
proof -
  have general: "map_of r k =
        (if k \<in> set record_keys
         then (case json_at item (source_path k) of
                 None \<Rightarrow> None
               | Some v \<Rightarrow> if v = JNull then None else Some v)
         else None)" if "parse_youtube_response item = Inr r" for r k
    using that by (rule map_of_parse)
  have absent: "''description'' \<notin> fst ` set r \<and> map_of r ''description'' = None"
    if snip: "json_at item [''snippet''] = Some (JObj s)"
      and desc: "map_of s ''description'' = None"
      and r: "parse_youtube_response item = Inr r" for r
  proof -
    obtain kvs where item: "item = JObj kvs"
      using snip by (cases item) simp_all
    have "map_of kvs ''snippet'' = Some (JObj s)"
      using snip unfolding item by (simp only: json_at_single)
    then have "json_at item (source_path ''description'') = None"
      using item desc by (simp add: source_path_def json_at_single)
    then have "map_of r ''description'' = None"
      using general [OF r, of "''description''"] by simp
    then show ?thesis by (simp add: map_of_eq_None_iff)
  qed
  have empty: "parse_youtube_response (JObj []) = Inr []"
    by (simp add: parse_youtube_response_def)
  show ?thesis using general absent raw_item_parse empty by blast
qed

theorem parse_omits_absent_description_witness:
  "json_at (JObj [(''etag'', JStr ''e''), (''snippet'', JObj [(''title'', JStr ''t'')])])
     [''snippet''] = Some (JObj [(''title'', JStr ''t'')]) \<and>
   map_of [(''title'', JStr ''t'')] ''description'' = None \<and>
   raw_item (JObj [(''etag'', JStr ''e''), (''snippet'', JObj [(''title'', JStr ''t'')])]) \<and>
   parse_youtube_response
     (JObj [(''etag'', JStr ''e''), (''snippet'', JObj [(''title'', JStr ''t'')])]) =
     Inr [(''etag'', JStr ''e''), (''title'', JStr ''t'')] \<and>
   map_of [(''etag'', JStr ''e''), (''title'', JStr ''t'')] ''description'' = None"
  using parse_omits_absent_description
    [of "JObj [(''etag'', JStr ''e''), (''snippet'', JObj [(''title'', JStr ''t'')])]"
        "[(''title'', JStr ''t'')]"]
  by (simp add: parse_youtube_response_def raw_item_def dict_or_absent_def)

section \<open>Properties of the pagination driver\<close>

lemma page_records_dict:
  assumes "page_records p = Inr rs"
  shows "\<exists>kvs. p = JObj kvs"
  using assms by (cases p) (simp_all add: page_records_def page_items_def)

lemma well_formed_page_token:
  assumes "well_formed_page p"
  shows "dict_get p ''nextPageToken'' JNull = Inr (returned_token (Inr p))"
proof -
  obtain rs where "page_records p = Inr rs"
    using assms by (auto simp: well_formed_page_def split: sum.splits)
  then obtain kvs where "p = JObj kvs" using page_records_dict by blast
  then show ?thesis by (simp add: returned_token_def)
qed

lemma fetch_batches_logged:
  "fetch_batches (logged ex) subj pa bs tok acc (w, l0) =
     (case fetch_batches ex subj pa bs tok acc w of
        (out, w') \<Rightarrow> (out, (w', l0 @ calls_made ex subj pa bs tok w)))"
proof (induction bs arbitrary: tok acc w l0)
  case Nil
  show ?case by simp
next
  case (Cons b bs)
  let ?req = "\<lparr>part = ''snippet'', maxResults = b, q = subj, publishedAfter = pa,
    pageToken = tok\<rparr>"
  obtain r w1 where ex: "ex ?req w = (r, w1)" by (cases "ex ?req w")
  show ?case
  proof (cases r)
    case (Inl e)
    then show ?thesis using ex by (simp add: search_videos_def logged_def)
  next
    case (Inr p)
    show ?thesis
    proof (cases "well_formed_page p")
      case True
      then obtain rs where rs: "page_records p = Inr rs"
        by (auto simp: well_formed_page_def split: sum.splits)
      show ?thesis
        using ex Inr True rs well_formed_page_token [OF True] Cons.IH
        by (simp add: search_videos_def logged_def)
    next
      case False
      then obtain e where e: "page_records p = Inl e"
        by (auto simp: well_formed_page_def split: sum.splits)
      show ?thesis
        using ex Inr False e
        by (cases "dict_get p ''nextPageToken'' JNull")
           (simp_all add: search_videos_def logged_def)
    qed
  qed
qed


lemma calls_made_length: "length (calls_made ex subj pa bs tok w) \<le> length bs"
  by (induction bs arbitrary: tok w) (auto split: prod.splits sum.splits)

lemma calls_made_request:
  "i < length (calls_made ex subj pa bs tok w) \<Longrightarrow>
   fst (calls_made ex subj pa bs tok w ! i) =
     \<lparr>part = ''snippet'', maxResults = bs ! i, q = subj, publishedAfter = pa,
      pageToken = (if i = 0 then tok
                   else returned_token (snd (calls_made ex subj pa bs tok w ! (i - 1))))\<rparr>"
proof (induction bs arbitrary: tok w i)
  case Nil
  then show ?case by simp
next
  case (Cons b bs)
  let ?req = "\<lparr>part = ''snippet'', maxResults = b, q = subj, publishedAfter = pa,
    pageToken = tok\<rparr>"
  obtain r w1 where ex: "ex ?req w = (r, w1)" by (cases "ex ?req w")
  show ?case
  proof (cases i)
    case 0
    then show ?thesis using ex by simp
  next
    case (Suc j)
    note i = Suc
    show ?thesis
    proof (cases r)
      case (Inl e)
      then show ?thesis using Cons.prems ex i by simp
    next
      case (Inr p)
      show ?thesis
      proof (cases "well_formed_page p")
        case False
        then show ?thesis using Cons.prems ex i Inr by simp
      next
        case True
        let ?rest = "calls_made ex subj pa bs (returned_token r) w1"
        have cm: "calls_made ex subj pa (b # bs) tok w = (?req, r) # ?rest"
          using ex Inr True by simp
        have j: "j < length ?rest" using Cons.prems i cm by simp
        show ?thesis
        proof (cases j)
          case 0
          then show ?thesis using Cons.IH [OF j] cm i by simp
        next
          case (Suc k)
          then show ?thesis using Cons.IH [OF j] cm i by simp
        qed
      qed
    qed
  qed
qed

lemma calls_made_failure:
  "i < length (calls_made ex subj pa bs tok w) \<Longrightarrow>
   snd (calls_made ex subj pa bs tok w ! i) = Inl e \<Longrightarrow>
   fst (fetch_batches ex subj pa bs tok acc w) = Inl e \<and>
   Suc i = length (calls_made ex subj pa bs tok w)"
proof (induction bs arbitrary: tok w i acc)
  case Nil
  then show ?case by simp
next
  case (Cons b bs)
  let ?req = "\<lparr>part = ''snippet'', maxResults = b, q = subj, publishedAfter = pa,
    pageToken = tok\<rparr>"
  obtain r w1 where ex: "ex ?req w = (r, w1)" by (cases "ex ?req w")
  show ?case
  proof (cases r)
    case (Inl e')
    then show ?thesis using Cons.prems ex by (simp add: search_videos_def)
  next
    case (Inr p)
    show ?thesis
    proof (cases "well_formed_page p")
      case False
      then show ?thesis using Cons.prems ex Inr by simp
    next
      case True
      let ?rest = "calls_made ex subj pa bs (returned_token r) w1"
      have cm: "calls_made ex subj pa (b # bs) tok w = (?req, r) # ?rest"
        using ex Inr True by simp
      obtain rs where rs: "page_records p = Inr rs"
        using True by (auto simp: well_formed_page_def split: sum.splits)
      have fb: "fetch_batches ex subj pa (b # bs) tok acc w =
          fetch_batches ex subj pa bs (returned_token r) (acc @ [rs]) w1"
        using ex Inr rs well_formed_page_token [OF True] by (simp add: search_videos_def)
      show ?thesis
      proof (cases i)
        case 0
        then show ?thesis using Cons.prems cm Inr by simp
      next
        case (Suc j)
        then have "j < length ?rest" "snd (?rest ! j) = Inl e"
          using Cons.prems cm by simp_all
        from Cons.IH [OF this, of "acc @ [rs]"] show ?thesis
          using fb cm Suc by simp
      qed
    qed
  qed
qed

lemma calls_made_success:
  "fst (fetch_batches ex subj pa bs tok acc w) = Inr rss \<Longrightarrow>
   length (calls_made ex subj pa bs tok w) = length bs \<and>
   (\<exists>pages rs. map snd (calls_made ex subj pa bs tok w) = map Inr pages \<and>
      map page_records pages = map Inr rs \<and> rss = acc @ rs)"
proof (induction bs arbitrary: tok w acc)
  case Nil
  then show ?case by simp
next
  case (Cons b bs)
  let ?req = "\<lparr>part = ''snippet'', maxResults = b, q = subj, publishedAfter = pa,
    pageToken = tok\<rparr>"
  obtain r w1 where ex: "ex ?req w = (r, w1)" by (cases "ex ?req w")
  show ?case
  proof (cases r)
    case (Inl e')
    then show ?thesis using Cons.prems ex by (simp add: search_videos_def)
  next
    case (Inr p)
    show ?thesis
    proof (cases "page_records p")
      case (Inl e')
      then show ?thesis using Cons.prems ex Inr
        by (cases "dict_get p ''nextPageToken'' JNull") (simp_all add: search_videos_def)
    next
      case rs: (Inr recs)
      then have wf: "well_formed_page p" by (simp add: well_formed_page_def)
      let ?rest = "calls_made ex subj pa bs (returned_token r) w1"
      have cm: "calls_made ex subj pa (b # bs) tok w = (?req, r) # ?rest"
        using ex Inr wf by simp
      have fb: "fetch_batches ex subj pa (b # bs) tok acc w =
          fetch_batches ex subj pa bs (returned_token r) (acc @ [recs]) w1"
        using ex Inr rs well_formed_page_token [OF wf] by (simp add: search_videos_def)
      from Cons.prems fb
      have "fst (fetch_batches ex subj pa bs (returned_token r) (acc @ [recs]) w1) = Inr rss"
        by simp
      from Cons.IH [OF this] obtain pages rs' where
        len: "length ?rest = length bs" and
        pg: "map snd ?rest = map Inr pages" and
        pr: "map page_records pages = map Inr rs'" and
        rss: "rss = (acc @ [recs]) @ rs'" by blast
      have a: "map snd (calls_made ex subj pa (b # bs) tok w) = map Inr (p # pages)"
        using cm pg Inr by simp
      have b: "map page_records (p # pages) = map Inr (recs # rs')"
        using pr rs by simp
      have c: "rss = acc @ (recs # rs')" using rss by simp
      have d: "length (calls_made ex subj pa (b # bs) tok w) = length (b # bs)"
        using cm len by simp
      from a b c have "\<exists>pages rs.
          map snd (calls_made ex subj pa (b # bs) tok w) = map Inr pages \<and>
          map page_records pages = map Inr rs \<and> rss = acc @ rs" by blast
      with d show ?thesis by simp
    qed
  qed
qed

lemma calls_made_all_good:
  "(\<forall>i < length (calls_made ex subj pa bs tok w).
      \<exists>p. snd (calls_made ex subj pa bs tok w ! i) = Inr p \<and> well_formed_page p) \<Longrightarrow>
   \<exists>rss. fst (fetch_batches ex subj pa bs tok acc w) = Inr rss"
proof (induction bs arbitrary: tok w acc)
  case Nil
  then show ?case by simp
next
  case (Cons b bs)
  let ?req = "\<lparr>part = ''snippet'', maxResults = b, q = subj, publishedAfter = pa,
    pageToken = tok\<rparr>"
  obtain r w1 where ex: "ex ?req w = (r, w1)" by (cases "ex ?req w")
  have hd: "calls_made ex subj pa (b # bs) tok w ! 0 = (?req, r)"
    and ne: "0 < length (calls_made ex subj pa (b # bs) tok w)"
    using ex by simp_all
  from Cons.prems ne hd obtain p where p: "r = Inr p" and wf: "well_formed_page p"
    by fastforce
  let ?rest = "calls_made ex subj pa bs (returned_token r) w1"
  have cm: "calls_made ex subj pa (b # bs) tok w = (?req, r) # ?rest"
    using ex p wf by simp
  obtain recs where rs: "page_records p = Inr recs"
    using wf by (auto simp: well_formed_page_def split: sum.splits)
  have fb: "fetch_batches ex subj pa (b # bs) tok acc w =
      fetch_batches ex subj pa bs (returned_token r) (acc @ [recs]) w1"
    using ex p rs well_formed_page_token [OF wf] by (simp add: search_videos_def)
  have "\<forall>i < length ?rest. \<exists>p. snd (?rest ! i) = Inr p \<and> well_formed_page p"
  proof (intro allI impI)
    fix i assume "i < length ?rest"
    then have "Suc i < length (calls_made ex subj pa (b # bs) tok w)" using cm by simp
    from Cons.prems [rule_format, OF this] show
      "\<exists>p. snd (?rest ! i) = Inr p \<and> well_formed_page p" using cm by simp
  qed
  from Cons.IH [OF this] show ?case using fb by simp
qed

lemma calls_made_inner_good:
  "Suc i < length (calls_made ex subj pa bs tok w) \<Longrightarrow>
   \<exists>p. snd (calls_made ex subj pa bs tok w ! i) = Inr p \<and> well_formed_page p"
proof (induction bs arbitrary: tok w i)
  case Nil
  then show ?case by simp
next
  case (Cons b bs)
  let ?req = "\<lparr>part = ''snippet'', maxResults = b, q = subj, publishedAfter = pa,
    pageToken = tok\<rparr>"
  obtain r w1 where ex: "ex ?req w = (r, w1)" by (cases "ex ?req w")
  show ?case
  proof (cases r)
    case (Inl e)
    then show ?thesis using Cons.prems ex by simp
  next
    case (Inr p)
    show ?thesis
    proof (cases "well_formed_page p")
      case False
      then show ?thesis using Cons.prems ex Inr by simp
    next
      case True
      let ?rest = "calls_made ex subj pa bs (returned_token r) w1"
      have cm: "calls_made ex subj pa (b # bs) tok w = (?req, r) # ?rest"
        using ex Inr True by simp
      show ?thesis
      proof (cases i)
        case 0
        then show ?thesis using cm Inr True by simp
      next
        case (Suc j)
        then have "Suc j < length ?rest" using Cons.prems cm by simp
        from Cons.IH [OF this] show ?thesis using cm Suc by simp
      qed
    qed
  qed
qed

lemma calls_made_continues:
  "i < length (calls_made ex subj pa bs tok w) \<Longrightarrow>
   snd (calls_made ex subj pa bs tok w ! i) = Inr p \<Longrightarrow> well_formed_page p \<Longrightarrow>
   Suc i < length bs \<Longrightarrow>
   Suc i < length (calls_made ex subj pa bs tok w)"
proof (induction bs arbitrary: tok w i)
  case Nil
  then show ?case by simp
next
  case (Cons b bs)
  let ?req = "\<lparr>part = ''snippet'', maxResults = b, q = subj, publishedAfter = pa,
    pageToken = tok\<rparr>"
  obtain r w1 where ex: "ex ?req w = (r, w1)" by (cases "ex ?req w")
  let ?rest = "calls_made ex subj pa bs (returned_token r) w1"
  show ?case
  proof (cases i)
    case 0
    then have r: "r = Inr p" using Cons.prems ex by simp
    then have cm: "calls_made ex subj pa (b # bs) tok w = (?req, r) # ?rest"
      using ex Cons.prems(3) by simp
    obtain b' bs' where bs: "bs = b' # bs'"
      using Cons.prems(4) 0 by (cases bs) simp_all
    have "?rest \<noteq> []" unfolding bs by (simp split: prod.splits)
    then show ?thesis using cm 0 by simp
  next
    case (Suc j)
    show ?thesis
    proof (cases r)
      case (Inl e)
      then show ?thesis using Cons.prems ex Suc by simp
    next
      case (Inr p')
      show ?thesis
      proof (cases "well_formed_page p'")
        case False
        then show ?thesis using Cons.prems ex Suc Inr by simp
      next
        case True
        have cm: "calls_made ex subj pa (b # bs) tok w = (?req, r) # ?rest"
          using ex Inr True by simp
        have "j < length ?rest" "snd (?rest ! j) = Inr p" "Suc j < length bs"
          using Cons.prems cm Suc by simp_all
        from Cons.IH [OF this(1,2) Cons.prems(3) this(3)] show ?thesis
          using cm Suc by simp
      qed
    qed
  qed
qed


lemma run_unfold:
  assumes "week_ago_formatted c weeks = Inr pa"
    and "split_batches n MAX_YOUTUBE_API_RESULTS = Inr plan"
  shows "search_youtube ex c subj n weeks w =
    (case fetch_batches ex subj pa plan JNull [] w of
       (Inl e, w') \<Rightarrow> (Inl e, w')
     | (Inr rss, w') \<Rightarrow> (Inr (concat rss), w'))"
  using assms by (simp add: search_youtube_def)

lemma run_logged:
  assumes run: "search_youtube (logged ex) c subj n weeks (w, []) = (out, (w', calls))"
    and pa: "week_ago_formatted c weeks = Inr pa"
    and plan: "split_batches n MAX_YOUTUBE_API_RESULTS = Inr plan"
  shows "calls = calls_made ex subj pa plan JNull w"
    and "out = (case fst (fetch_batches ex subj pa plan JNull [] w) of
                  Inl e \<Rightarrow> Inl e | Inr rss \<Rightarrow> Inr (concat rss))"
    and "search_youtube ex c subj n weeks w = (out, w')"
proof -
  obtain o1 w1 where fb: "fetch_batches ex subj pa plan JNull [] w = (o1, w1)"
    by (cases "fetch_batches ex subj pa plan JNull [] w")
  have lg: "fetch_batches (logged ex) subj pa plan JNull [] (w, []) =
      (o1, (w1, calls_made ex subj pa plan JNull w))"
    using fb by (simp add: fetch_batches_logged)
  have "search_youtube (logged ex) c subj n weeks (w, []) =
      ((case o1 of Inl e \<Rightarrow> Inl e | Inr rss \<Rightarrow> Inr (concat rss)),
       (w1, calls_made ex subj pa plan JNull w))"
    unfolding run_unfold [OF pa plan] lg by (cases o1) simp_all
  with run have eq: "out = (case o1 of Inl e \<Rightarrow> Inl e | Inr rss \<Rightarrow> Inr (concat rss))"
    "w' = w1" "calls = calls_made ex subj pa plan JNull w" by simp_all
  show "calls = calls_made ex subj pa plan JNull w" by (rule eq(3))
  show "out = (case fst (fetch_batches ex subj pa plan JNull [] w) of
                  Inl e \<Rightarrow> Inl e | Inr rss \<Rightarrow> Inr (concat rss))"
    using eq(1) fb by simp
  show "search_youtube ex c subj n weeks w = (out, w')"
    unfolding run_unfold [OF pa plan] fb using eq by (cases o1) simp_all
qed

lemma run_no_clock:
  assumes run: "search_youtube (logged ex) c subj n weeks (w, []) = (out, (w', calls))"
    and pa: "week_ago_formatted c weeks = Inl e"
  shows "calls = []" and "out = Inl e"
  using assms by (simp_all add: search_youtube_def)

lemma run_logged_cases:
  assumes run: "search_youtube (logged ex) c subj n weeks (w, []) = (out, (w', calls))"
  shows "(\<exists>pa plan. week_ago_formatted c weeks = Inr pa \<and>
            split_batches n MAX_YOUTUBE_API_RESULTS = Inr plan) \<or>
         (calls = [] \<and> (\<exists>e. out = Inl e))"
proof (cases "week_ago_formatted c weeks")
  case (Inl e)
  then show ?thesis using run by (auto simp: search_youtube_def)
next
  case pa: (Inr pa)
  show ?thesis
  proof (cases "split_batches n MAX_YOUTUBE_API_RESULTS")
    case (Inl e)
    then show ?thesis using run pa by (auto simp: search_youtube_def)
  next
    case (Inr plan)
    then show ?thesis using pa by simp
  qed
qed


lemma search_youtube_Inr:
  assumes "search_youtube ex c subj n weeks w = (Inr records, w')"
  shows "\<exists>pa plan rss. week_ago_formatted c weeks = Inr pa \<and>
     split_batches n MAX_YOUTUBE_API_RESULTS = Inr plan \<and>
     fetch_batches ex subj pa plan JNull [] w = (Inr rss, w') \<and> records = concat rss"
proof -
  obtain pa where pa: "week_ago_formatted c weeks = Inr pa"
    using assms by (cases "week_ago_formatted c weeks") (simp_all add: search_youtube_def)
  obtain plan where plan: "split_batches n MAX_YOUTUBE_API_RESULTS = Inr plan"
    using assms pa
    by (cases "split_batches n MAX_YOUTUBE_API_RESULTS") (simp_all add: search_youtube_def)
  obtain o1 w1 where fb: "fetch_batches ex subj pa plan JNull [] w = (o1, w1)"
    by (cases "fetch_batches ex subj pa plan JNull [] w")
  obtain rss where "o1 = Inr rss" "records = concat rss" "w1 = w'"
    using assms unfolding run_unfold [OF pa plan] fb by (cases o1) simp_all
  then show ?thesis using pa plan fb by blast
qed

lemma comprehension_map:
  "comprehension f xs = Inr ys \<Longrightarrow> map f xs = map Inr ys"
  by (induction xs arbitrary: ys) (auto split: sum.splits)

lemma page_records_items:
  assumes "page_records p = Inr r"
  shows "\<exists>items. page_items p = Inr items \<and> map parse_youtube_response items = map Inr r"
proof -
  obtain items where items: "page_items p = Inr items"
    using assms by (cases "page_items p") (simp_all add: page_records_def)
  then have "comprehension parse_youtube_response items = Inr r"
    using assms by (simp add: page_records_def)
  then show ?thesis using items comprehension_map by blast
qed

lemma pages_records_items:
  "map page_records pages = map Inr rs \<Longrightarrow>
   \<exists>itemss. map page_items pages = map Inr itemss \<and>
     map parse_youtube_response (concat itemss) = map Inr (concat rs)"
proof (induction pages arbitrary: rs)
  case Nil
  then show ?case by simp
next
  case (Cons p pages)
  then obtain r rs' where rs: "rs = r # rs'" "page_records p = Inr r"
    "map page_records pages = map Inr rs'" by (cases rs) auto
  from page_records_items [OF rs(2)] obtain items where
    items: "page_items p = Inr items" "map parse_youtube_response items = map Inr r"
    by blast
  from Cons.IH [OF rs(3)] obtain itemss where
    rest: "map page_items pages = map Inr itemss"
      "map parse_youtube_response (concat itemss) = map Inr (concat rs')" by blast
  have "map page_items (p # pages) = map Inr (items # itemss)"
    using items rest by simp
  moreover have "map parse_youtube_response (concat (items # itemss)) = map Inr (concat rs)"
    using items rest rs by simp
  ultimately show ?case by blast
qed

lemma well_shaped_parse:
  assumes "parse_youtube_response item = Inr r"
  shows "well_shaped r"
proof -
  have "\<forall>kv \<in> set r. fst kv \<in> set record_keys \<and> snd kv \<noteq> JNull"
    using parse_shape(1,2) [OF assms] by force
  then show ?thesis
    using parse_shape(3) [OF assms] by (simp add: well_shaped_def list_all_iff)
qed

lemma week_ago_formatted_value:
  assumes "week_ago_formatted c weeks = Inr pa"
  shows "pa = strftime_iso_z (posix_seconds c + utc_offset c - 604800 * weeks)"
  using assms
  by (auto simp: week_ago_formatted_def timedelta_weeks_def datetime_sub_def datetime_now_def
      split: if_splits)


section \<open>Theorems about the driver\<close>

text \<open>
  C2. In a run observed through the log, the calls follow the plan of
  \<open>split_batches\<close> with page size 50: the i-th call asks for the i-th planned size,
  for the subject and the lower bound of the run; the first call carries no token and
  every later call carries the token the call before it returned. There are never more
  calls than planned sizes, a run that returns a value has made exactly one call per
  planned size, and a run all of whose calls answered a usable page does return a
  value. In the scenario of the design document (120 results wanted, pages of 50, 50
  and 20 items with tokens \<open>t1\<close>, \<open>t2\<close>, none) the plan is \<open>[50, 50, 20]\<close>, three
  calls are made, the second with \<open>t1\<close> and the third with \<open>t2\<close>, and 120 records
  come back.
\<close>

theorem search_youtube_calls:
  "(search_youtube (logged execute) c subject video_list_size amount_weeks (w, []) =
      (out, (w', calls)) \<and>
    split_batches video_list_size MAX_YOUTUBE_API_RESULTS = Inr plan \<and>
    week_ago_formatted c amount_weeks = Inr published_after \<longrightarrow>
      length calls \<le> length plan \<and>
      (\<forall>i < length calls.
         fst (calls ! i) =
           \<lparr>part = ''snippet'', maxResults = plan ! i, q = subject,
            publishedAfter = published_after,
            pageToken = (if i = 0 then JNull else returned_token (snd (calls ! (i - 1))))\<rparr>) \<and>
      ((\<exists>records. out = Inr records) \<longrightarrow> length calls = length plan) \<and>
      ((\<forall>i < length calls. \<exists>p. snd (calls ! i) = Inr p \<and> well_formed_page p) \<longrightarrow>
         length calls = length plan \<and> (\<exists>records. out = Inr records))) \<and>
   split_batches 120 MAX_YOUTUBE_API_RESULTS = Inr [50, 50, 20] \<and>
   search_youtube (logged scripted) fake_clock ''langchain'' 120 4 (fake_script, []) =
     (Inr (replicate 120 fake_record),
      ([], [(fake_request 50 JNull, fake_script ! 0),
            (fake_request 50 (JStr ''t1''), fake_script ! 1),
            (fake_request 20 (JStr ''t2''), fake_script ! 2)])) \<and>
   length (replicate 120 fake_record) = 120"
proof -
  have general: "length calls \<le> length plan \<and>
      (\<forall>i < length calls.
         fst (calls ! i) =
           \<lparr>part = ''snippet'', maxResults = plan ! i, q = subject,
            publishedAfter = published_after,
            pageToken = (if i = 0 then JNull else returned_token (snd (calls ! (i - 1))))\<rparr>) \<and>
      ((\<exists>records. out = Inr records) \<longrightarrow> length calls = length plan) \<and>
      ((\<forall>i < length calls. \<exists>p. snd (calls ! i) = Inr p \<and> well_formed_page p) \<longrightarrow>
         length calls = length plan \<and> (\<exists>records. out = Inr records))"
    if run: "search_youtube (logged execute) c subject video_list_size amount_weeks (w, []) =
      (out, (w', calls))"
      and plan: "split_batches video_list_size MAX_YOUTUBE_API_RESULTS = Inr plan"
      and pa: "week_ago_formatted c amount_weeks = Inr published_after"
  proof -
    let ?fb = "fetch_batches execute subject published_after plan JNull [] w"
    note calls = run_logged(1) [OF run pa plan]
    note out = run_logged(2) [OF run pa plan]
    have len: "length calls \<le> length plan"
      unfolding calls by (rule calls_made_length)
    have req: "\<forall>i < length calls.
         fst (calls ! i) =
           \<lparr>part = ''snippet'', maxResults = plan ! i, q = subject,
            publishedAfter = published_after,
            pageToken = (if i = 0 then JNull else returned_token (snd (calls ! (i - 1))))\<rparr>"
      unfolding calls by (intro allI impI) (rule calls_made_request)
    have full: "length calls = length plan" if r: "out = Inr records" for records
    proof -
      obtain rss where "fst ?fb = Inr rss"
        using r out by (cases "fst ?fb") simp_all
      from calls_made_success [OF this] show ?thesis unfolding calls by simp
    qed
    have good: "length calls = length plan \<and> (\<exists>records. out = Inr records)"
      if g: "\<forall>i < length calls. \<exists>p. snd (calls ! i) = Inr p \<and> well_formed_page p"
    proof -
      have "\<exists>rss. fst ?fb = Inr rss"
        using g unfolding calls by (rule calls_made_all_good)
      then obtain rss where "fst ?fb = Inr rss" ..
      then have "out = Inr (concat rss)" using out by simp
      then show ?thesis using full by blast
    qed
    show ?thesis using len req full good by blast
  qed
  have plan120: "split_batches 120 MAX_YOUTUBE_API_RESULTS = Inr [50, 50, 20]"
    by code_simp
  have scenario:
    "search_youtube (logged scripted) fake_clock ''langchain'' 120 4 (fake_script, []) =
     (Inr (replicate 120 fake_record),
      ([], [(fake_request 50 JNull, fake_script ! 0),
            (fake_request 50 (JStr ''t1''), fake_script ! 1),
            (fake_request 20 (JStr ''t2''), fake_script ! 2)]))"
    by code_simp
  have n: "length (replicate 120 fake_record) = 120" by simp
  show ?thesis using general plan120 scenario n by blast
qed

theorem search_youtube_calls_witness:
  "search_youtube (logged scripted) fake_clock ''langchain'' 120 4 (failing_script, []) =
     (Inl (HttpError ''quotaExceeded''),
      ([Inr (page [fake_item] JNull)],
       [(fake_request 50 JNull, failing_script ! 0),
        (fake_request 50 (JStr ''t1''), failing_script ! 1)])) \<and>
   split_batches 120 MAX_YOUTUBE_API_RESULTS = Inr [50, 50, 20] \<and>
   week_ago_formatted fake_clock 4 = Inr ''2023-10-17T22:13:20Z'' \<and>
   length [(fake_request 50 JNull, failing_script ! 0),
           (fake_request 50 (JStr ''t1''), failing_script ! 1)] \<le> length [50, 50, 20 :: int]"
proof -
  have run: "search_youtube (logged scripted) fake_clock ''langchain'' 120 4 (failing_script, []) =
     (Inl (HttpError ''quotaExceeded''),
      ([Inr (page [fake_item] JNull)],
       [(fake_request 50 JNull, failing_script ! 0),
        (fake_request 50 (JStr ''t1''), failing_script ! 1)]))"
    by code_simp
  have plan: "split_batches 120 MAX_YOUTUBE_API_RESULTS = Inr [50, 50, 20]"
    by code_simp
  have pa: "week_ago_formatted fake_clock 4 = Inr ''2023-10-17T22:13:20Z''"
    by code_simp
  have "length [(fake_request 50 JNull, failing_script ! 0),
           (fake_request 50 (JStr ''t1''), failing_script ! 1)] \<le> length [50, 50, 20 :: int]"
    using search_youtube_calls [THEN conjunct1, THEN mp, OF conjI [OF run conjI [OF plan pa]]]
    by (rule conjunct1)
  with run plan pa show ?thesis by (intro conjI)
qed


text \<open>
  C3 says that after a response without a token every remaining call passes no token.
  With answers holding no token, the token \<open>t1\<close> and no token, and three planned
  sizes, the three calls pass no token, no token and \<open>t1\<close>.
\<close>

theorem search_youtube_no_short_circuit_counterexample:
  "returned_token (restart_script ! 0) = JNull \<and>
   split_batches 150 MAX_YOUTUBE_API_RESULTS = Inr [50, 50, 50] \<and>
   search_youtube (logged scripted) fake_clock ''langchain'' 150 4 (restart_script, []) =
     (Inr [fake_record, fake_record, fake_record],
      ([], [(fake_request 50 JNull, restart_script ! 0),
            (fake_request 50 JNull, restart_script ! 1),
            (fake_request 50 (JStr ''t1''), restart_script ! 2)])) \<and>
   pageToken (fake_request 50 (JStr ''t1'')) \<noteq> JNull"
  by code_simp

text \<open>
  C3, as the source behaves. A response without a token does not stop the run: after
  any call that answered a usable page, with or without a token, the call for the next
  planned size is made. Each call passes the token the call before it returned, so the
  call right after a response without a token passes none; a later call passes a token
  again when the response before it held one.
\<close>

theorem search_youtube_no_short_circuit:
  "search_youtube (logged execute) c subject video_list_size amount_weeks (w, []) =
      (out, (w', calls)) \<and>
   split_batches video_list_size MAX_YOUTUBE_API_RESULTS = Inr plan \<longrightarrow>
     (\<forall>i p. i < length calls \<and> snd (calls ! i) = Inr p \<and> well_formed_page p \<and>
        Suc i < length plan \<longrightarrow> Suc i < length calls) \<and>
     (\<forall>i. Suc i < length calls \<longrightarrow>
        pageToken (fst (calls ! Suc i)) = returned_token (snd (calls ! i))) \<and>
     (\<forall>i. Suc i < length calls \<and> returned_token (snd (calls ! i)) = JNull \<longrightarrow>
        pageToken (fst (calls ! Suc i)) = JNull)"
proof (intro impI, elim conjE)
  assume run: "search_youtube (logged execute) c subject video_list_size amount_weeks (w, []) =
      (out, (w', calls))"
    and plan: "split_batches video_list_size MAX_YOUTUBE_API_RESULTS = Inr plan"
  show "(\<forall>i p. i < length calls \<and> snd (calls ! i) = Inr p \<and> well_formed_page p \<and>
        Suc i < length plan \<longrightarrow> Suc i < length calls) \<and>
     (\<forall>i. Suc i < length calls \<longrightarrow>
        pageToken (fst (calls ! Suc i)) = returned_token (snd (calls ! i))) \<and>
     (\<forall>i. Suc i < length calls \<and> returned_token (snd (calls ! i)) = JNull \<longrightarrow>
        pageToken (fst (calls ! Suc i)) = JNull)"
  proof (cases "week_ago_formatted c amount_weeks")
    case (Inl e)
    from run_no_clock(1) [OF run Inl] show ?thesis by simp
  next
    case (Inr pa)
    note calls = run_logged(1) [OF run Inr plan]
    have next_call: "Suc i < length calls"
      if "i < length calls" "snd (calls ! i) = Inr p" "well_formed_page p"
        "Suc i < length plan" for i p
      using that unfolding calls by (rule calls_made_continues)
    have token: "pageToken (fst (calls ! Suc i)) = returned_token (snd (calls ! i))"
      if "Suc i < length calls" for i
    proof -
      have "fst (calls ! Suc i) =
           \<lparr>part = ''snippet'', maxResults = plan ! Suc i, q = subject,
            publishedAfter = pa,
            pageToken = (if Suc i = 0 then JNull
                         else returned_token (snd (calls ! (Suc i - 1))))\<rparr>"
        using that unfolding calls by (rule calls_made_request)
      then show ?thesis by simp
    qed
    show ?thesis using next_call token by auto
  qed
qed

theorem search_youtube_no_short_circuit_witness:
  "search_youtube (logged scripted) fake_clock ''langchain'' 150 4 (restart_script, []) =
     (Inr [fake_record, fake_record, fake_record],
      ([], [(fake_request 50 JNull, restart_script ! 0),
            (fake_request 50 JNull, restart_script ! 1),
            (fake_request 50 (JStr ''t1''), restart_script ! 2)])) \<and>
   split_batches 150 MAX_YOUTUBE_API_RESULTS = Inr [50, 50, 50] \<and>
   returned_token (restart_script ! 0) = JNull \<and>
   pageToken (fake_request 50 JNull) = JNull"
proof -
  have run: "search_youtube (logged scripted) fake_clock ''langchain'' 150 4 (restart_script, []) =
     (Inr [fake_record, fake_record, fake_record],
      ([], [(fake_request 50 JNull, restart_script ! 0),
            (fake_request 50 JNull, restart_script ! 1),
            (fake_request 50 (JStr ''t1''), restart_script ! 2)]))"
    by code_simp
  have plan: "split_batches 150 MAX_YOUTUBE_API_RESULTS = Inr [50, 50, 50]"
    by code_simp
  have tok: "returned_token (restart_script ! 0) = JNull"
    by code_simp
  note t = search_youtube_no_short_circuit [THEN mp, OF conjI [OF run plan]]
  have h: "Suc 0 < length [(fake_request 50 JNull, restart_script ! 0),
            (fake_request 50 JNull, restart_script ! 1),
            (fake_request 50 (JStr ''t1''), restart_script ! 2)] \<and>
        returned_token (snd ([(fake_request 50 JNull, restart_script ! 0),
            (fake_request 50 JNull, restart_script ! 1),
            (fake_request 50 (JStr ''t1''), restart_script ! 2)] ! 0)) = JNull"
    using tok by simp
  have "pageToken (fst ([(fake_request 50 JNull, restart_script ! 0),
            (fake_request 50 JNull, restart_script ! 1),
            (fake_request 50 (JStr ''t1''), restart_script ! 2)] ! Suc 0)) = JNull"
    by (rule t [THEN conjunct2, THEN conjunct2, THEN spec, THEN mp, OF h])
  then have "pageToken (fake_request 50 JNull) = JNull" by simp
  with run plan tok show ?thesis by (intro conjI)
qed


lemma json_at_items:
  assumes "json_at p [''items''] = Some (JList xs)"
  shows "page_items p = Inr xs"
proof -
  obtain kvs where p: "p = JObj kvs" using assms by (cases p) simp_all
  have "map_of kvs ''items'' = Some (JList xs)"
    using assms unfolding p by (simp only: json_at_single)
  then show ?thesis by (simp add: page_items_def p)
qed

lemma comprehension_total:
  "(\<forall>x \<in> set xs. \<exists>y. f x = Inr y) \<Longrightarrow> \<exists>ys. comprehension f xs = Inr ys"
  by (induction xs) (auto split: sum.splits)

lemma listed_page_well_formed:
  assumes "json_at p [''items''] = Some (JList xs)" and "\<forall>x \<in> set xs. raw_item x"
  shows "well_formed_page p"
proof -
  have "\<forall>x \<in> set xs. \<exists>y. parse_youtube_response x = Inr y"
    using assms(2) raw_item_parse by blast
  then obtain ys where "comprehension parse_youtube_response xs = Inr ys"
    using comprehension_total by blast
  then show ?thesis
    using json_at_items [OF assms(1)] by (simp add: well_formed_page_def page_records_def)
qed

text \<open>
  C6. Let every call of a run have answered a page, a dict with a list of items under
  \<open>items\<close>. When the run returns records, they are the normalizations of the items
  of these pages, page after page and, within a page, item after item in the order the
  list has them; so there are as many records as the pages hold items. The run does
  return records when the lower bound and the plan could be computed and every item
  has the documented shape.
\<close>

theorem search_youtube_result_concat:
  "search_youtube (logged execute) c subject video_list_size amount_weeks (w, []) =
      (out, (w', calls)) \<and>
   list_all2 (\<lambda>call items. \<exists>p. snd call = Inr p \<and> json_at p [''items''] = Some (JList items))
     calls itemss \<longrightarrow>
   (\<forall>records. out = Inr records \<longrightarrow>
      map parse_youtube_response (concat itemss) = map Inr records \<and>
      length records = sum_list (map length itemss)) \<and>
   ((\<exists>pa. week_ago_formatted c amount_weeks = Inr pa) \<and>
    (\<exists>plan. split_batches video_list_size MAX_YOUTUBE_API_RESULTS = Inr plan) \<and>
    (\<forall>item \<in> set (concat itemss). raw_item item) \<longrightarrow>
      (\<exists>records. out = Inr records))"
proof (intro impI, elim conjE)
  assume run: "search_youtube (logged execute) c subject video_list_size amount_weeks (w, []) =
      (out, (w', calls))"
    and listed: "list_all2
      (\<lambda>call items. \<exists>p. snd call = Inr p \<and> json_at p [''items''] = Some (JList items))
      calls itemss"
  have len: "length calls = length itemss"
    using listed by (rule list_all2_lengthD)
  have nth: "\<exists>p. snd (calls ! i) = Inr p \<and> json_at p [''items''] = Some (JList (itemss ! i))"
    if "i < length calls" for i
    using list_all2_nthD [OF listed that] .
  have returned: "map parse_youtube_response (concat itemss) = map Inr records \<and>
      length records = sum_list (map length itemss)"
    if out: "out = Inr records" for records
  proof -
    obtain pa plan where pa: "week_ago_formatted c amount_weeks = Inr pa"
      and plan: "split_batches video_list_size MAX_YOUTUBE_API_RESULTS = Inr plan"
      using run_logged_cases [OF run] out by auto
    let ?fb = "fetch_batches execute subject pa plan JNull [] w"
    note calls = run_logged(1) [OF run pa plan]
    obtain rss where rss: "fst ?fb = Inr rss" and records: "records = concat rss"
      using run_logged(2) [OF run pa plan] out by (cases "fst ?fb") simp_all
    from calls_made_success [OF rss] obtain pages rs where
      pages: "map snd calls = map Inr pages" and
      pr: "map page_records pages = map Inr rs" and "rss = [] @ rs"
      unfolding calls by blast
    then have rs: "records = concat rs" using records by simp
    have plen: "length pages = length calls" using pages by (metis length_map)
    have "map page_items pages = map Inr itemss"
    proof (rule nth_equalityI)
      show "length (map page_items pages) = length (map Inr itemss)"
        using plen len by simp
    next
      fix i assume "i < length (map page_items pages)"
      then have i: "i < length calls" using plen by simp
      have "snd (calls ! i) = Inr (pages ! i)"
        using pages i plen by (metis nth_map)
      with nth [OF i] have "json_at (pages ! i) [''items''] = Some (JList (itemss ! i))"
        by auto
      then have "page_items (pages ! i) = Inr (itemss ! i)" by (rule json_at_items)
      then show "map page_items pages ! i = map Inr itemss ! i"
        using i plen len by simp
    qed
    moreover from pages_records_items [OF pr] obtain itemss' where
      "map page_items pages = map Inr itemss'" and
      parsed: "map parse_youtube_response (concat itemss') = map Inr records"
      unfolding rs by blast
    ultimately have "map Inr itemss = (map Inr itemss' :: (py_error + json list) list)"
      by simp
    then have "itemss = itemss'" by (simp add: inj_map_eq_map)
    then have p: "map parse_youtube_response (concat itemss) = map Inr records"
      using parsed by simp
    then have "length (map parse_youtube_response (concat itemss)) = length (map Inr records)"
      by simp
    then have "length records = sum_list (map length itemss)"
      by (simp add: length_concat)
    with p show ?thesis by simp
  qed
  have returns: "\<exists>records. out = Inr records"
    if pa: "week_ago_formatted c amount_weeks = Inr pa"
      and plan: "split_batches video_list_size MAX_YOUTUBE_API_RESULTS = Inr plan"
      and raw: "\<forall>item \<in> set (concat itemss). raw_item item" for pa plan
  proof -
    let ?fb = "fetch_batches execute subject pa plan JNull [] w"
    note calls = run_logged(1) [OF run pa plan]
    have good: "\<forall>i < length calls. \<exists>p. snd (calls ! i) = Inr p \<and> well_formed_page p"
    proof (intro allI impI)
      fix i assume i: "i < length calls"
      from nth [OF i] obtain p where p: "snd (calls ! i) = Inr p"
        and items: "json_at p [''items''] = Some (JList (itemss ! i))" by blast
      have "itemss ! i \<in> set itemss" using i len by simp
      then have "set (itemss ! i) \<subseteq> set (concat itemss)" by auto
      then have "\<forall>x \<in> set (itemss ! i). raw_item x" using raw by blast
      from listed_page_well_formed [OF items this] p
      show "\<exists>p. snd (calls ! i) = Inr p \<and> well_formed_page p" by blast
    qed
    have "\<exists>rss. fst ?fb = Inr rss"
      using good unfolding calls by (rule calls_made_all_good)
    then show ?thesis using run_logged(2) [OF run pa plan] by auto
  qed
  show "(\<forall>records. out = Inr records \<longrightarrow>
      map parse_youtube_response (concat itemss) = map Inr records \<and>
      length records = sum_list (map length itemss)) \<and>
   ((\<exists>pa. week_ago_formatted c amount_weeks = Inr pa) \<and>
    (\<exists>plan. split_batches video_list_size MAX_YOUTUBE_API_RESULTS = Inr plan) \<and>
    (\<forall>item \<in> set (concat itemss). raw_item item) \<longrightarrow>
      (\<exists>records. out = Inr records))"
    using returned returns by blast
qed

theorem search_youtube_result_concat_witness:
  "search_youtube (logged scripted) fake_clock ''langchain'' 100 4 (mixed_script, []) =
     (Inr [record_a, record_b, record_c],
      ([], [(fake_request 50 JNull, mixed_script ! 0),
            (fake_request 50 (JStr ''t1''), mixed_script ! 1)])) \<and>
   list_all2 (\<lambda>call items. \<exists>p. snd call = Inr p \<and> json_at p [''items''] = Some (JList items))
     [(fake_request 50 JNull, mixed_script ! 0),
      (fake_request 50 (JStr ''t1''), mixed_script ! 1)]
     [[item_a, item_b], [item_c]] \<and>
   map parse_youtube_response (concat [[item_a, item_b], [item_c]]) =
     map Inr [record_a, record_b, record_c] \<and>
   length [record_a, record_b, record_c] = sum_list (map length [[item_a, item_b], [item_c]])"
proof -
  have run: "search_youtube (logged scripted) fake_clock ''langchain'' 100 4 (mixed_script, []) =
     (Inr [record_a, record_b, record_c],
      ([], [(fake_request 50 JNull, mixed_script ! 0),
            (fake_request 50 (JStr ''t1''), mixed_script ! 1)]))"
    by code_simp
  have listed: "list_all2
     (\<lambda>call items. \<exists>p. snd call = Inr p \<and> json_at p [''items''] = Some (JList items))
     [(fake_request 50 JNull, mixed_script ! 0),
      (fake_request 50 (JStr ''t1''), mixed_script ! 1)]
     [[item_a, item_b], [item_c]]"
    by (simp add: mixed_script_def page_def)
  note t = search_youtube_result_concat [THEN mp, OF conjI [OF run listed], THEN conjunct1,
      THEN spec, THEN mp, OF refl]
  from run listed t [THEN conjunct1] t [THEN conjunct2] show ?thesis by (intro conjI)
qed

text \<open>
  C8. No statement of the driver catches an exception. When a call of the service
  raises, the run ends with that exception: it yields no records, and the failing call
  is the last call made. The same holds when a call answers a page the driver cannot
  consume: the run ends with an exception at that call.
\<close>

theorem search_youtube_failure_propagates:
  "search_youtube (logged execute) c subject video_list_size amount_weeks (w, []) =
      (out, (w', calls)) \<and> i < length calls \<longrightarrow>
     (\<forall>e. snd (calls ! i) = Inl e \<longrightarrow>
        out = Inl e \<and> Suc i = length calls \<and>
        search_youtube execute c subject video_list_size amount_weeks w = (Inl e, w')) \<and>
     (\<forall>p. snd (calls ! i) = Inr p \<and> \<not> well_formed_page p \<longrightarrow>
        (\<exists>e. out = Inl e) \<and> Suc i = length calls)"
proof (intro impI, elim conjE)
  assume run: "search_youtube (logged execute) c subject video_list_size amount_weeks (w, []) =
      (out, (w', calls))" and i: "i < length calls"
  obtain pa plan where pa: "week_ago_formatted c amount_weeks = Inr pa"
    and plan: "split_batches video_list_size MAX_YOUTUBE_API_RESULTS = Inr plan"
    using run_logged_cases [OF run] i by auto
  let ?fb = "fetch_batches execute subject pa plan JNull [] w"
  note calls = run_logged(1) [OF run pa plan]
  note out = run_logged(2) [OF run pa plan]
  note plain = run_logged(3) [OF run pa plan]
  have raised: "out = Inl e \<and> Suc i = length calls \<and>
        search_youtube execute c subject video_list_size amount_weeks w = (Inl e, w')"
    if e: "snd (calls ! i) = Inl e" for e
  proof -
    have "fst ?fb = Inl e \<and> Suc i = length calls"
      using i e unfolding calls by (rule calls_made_failure)
    then show ?thesis using out plain by simp
  qed
  have unusable: "(\<exists>e. out = Inl e) \<and> Suc i = length calls"
    if p: "snd (calls ! i) = Inr p" "\<not> well_formed_page p" for p
  proof -
    have last: "Suc i = length calls"
    proof (rule ccontr)
      assume "Suc i \<noteq> length calls"
      then have "Suc i < length calls" using i by simp
      then have "\<exists>p. snd (calls ! i) = Inr p \<and> well_formed_page p"
        unfolding calls by (rule calls_made_inner_good)
      then show False using p by simp
    qed
    have "\<exists>e. out = Inl e"
    proof (cases "fst ?fb")
      case (Inl e)
      then show ?thesis using out by simp
    next
      case (Inr rss)
      from calls_made_success [OF Inr] obtain pages rs where
        pages: "map snd calls = map Inr pages" and
        pr: "map page_records pages = map Inr rs"
        unfolding calls by blast
      have len: "i < length pages" using pages i by (metis length_map)
      have "snd (calls ! i) = Inr (pages ! i)"
        using pages i len by (metis nth_map)
      then have "pages ! i = p" using p(1) by simp
      moreover have "page_records (pages ! i) = Inr (rs ! i)"
        using pr len by (metis length_map nth_map)
      ultimately have "well_formed_page p" by (simp add: well_formed_page_def)
      then show ?thesis using p(2) by simp
    qed
    then show ?thesis using last by simp
  qed
  show "(\<forall>e. snd (calls ! i) = Inl e \<longrightarrow>
        out = Inl e \<and> Suc i = length calls \<and>
        search_youtube execute c subject video_list_size amount_weeks w = (Inl e, w')) \<and>
     (\<forall>p. snd (calls ! i) = Inr p \<and> \<not> well_formed_page p \<longrightarrow>
        (\<exists>e. out = Inl e) \<and> Suc i = length calls)"
    using raised unusable by blast
qed

theorem search_youtube_failure_propagates_witness:
  "search_youtube (logged scripted) fake_clock ''langchain'' 120 4 (failing_script, []) =
     (Inl (HttpError ''quotaExceeded''),
      ([Inr (page [fake_item] JNull)],
       [(fake_request 50 JNull, failing_script ! 0),
        (fake_request 50 (JStr ''t1''), failing_script ! 1)])) \<and>
   Suc 0 < length [(fake_request 50 JNull, failing_script ! 0),
        (fake_request 50 (JStr ''t1''), failing_script ! 1)] \<and>
   snd ([(fake_request 50 JNull, failing_script ! 0),
        (fake_request 50 (JStr ''t1''), failing_script ! 1)] ! Suc 0) =
     Inl (HttpError ''quotaExceeded'') \<and>
   split_batches 120 MAX_YOUTUBE_API_RESULTS = Inr [50, 50, 20] \<and>
   search_youtube scripted fake_clock ''langchain'' 120 4 failing_script =
     (Inl (HttpError ''quotaExceeded''), [Inr (page [fake_item] JNull)])"
proof -
  have run: "search_youtube (logged scripted) fake_clock ''langchain'' 120 4 (failing_script, []) =
     (Inl (HttpError ''quotaExceeded''),
      ([Inr (page [fake_item] JNull)],
       [(fake_request 50 JNull, failing_script ! 0),
        (fake_request 50 (JStr ''t1''), failing_script ! 1)]))"
    by code_simp
  have i: "Suc 0 < length [(fake_request 50 JNull, failing_script ! 0),
        (fake_request 50 (JStr ''t1''), failing_script ! 1)]"
    by simp
  have e: "snd ([(fake_request 50 JNull, failing_script ! 0),
        (fake_request 50 (JStr ''t1''), failing_script ! 1)] ! Suc 0) =
     Inl (HttpError ''quotaExceeded'')"
    by code_simp
  have plan: "split_batches 120 MAX_YOUTUBE_API_RESULTS = Inr [50, 50, 20]"
    by code_simp
  note t = search_youtube_failure_propagates [THEN mp, OF conjI [OF run i], THEN conjunct1,
      THEN spec, THEN mp, OF e]
  have plain: "search_youtube scripted fake_clock ''langchain'' 120 4 failing_script =
     (Inl (HttpError ''quotaExceeded''), [Inr (page [fake_item] JNull)])"
    by (rule t [THEN conjunct2, THEN conjunct2])
  from run i e plan plain show ?thesis by (intro conjI)
qed


text \<open>
  C10. The normalizer returns a record for every raw item of the documented shape, and
  every record it returns has its keys among the eleven keys of the dict display, each
  at most once, and no \<open>None\<close> value. The driver returns such records only.
\<close>

theorem result_records_well_shaped:
  "(raw_item item \<longrightarrow> (\<exists>r. parse_youtube_response item = Inr r \<and> well_shaped r)) \<and>
   (parse_youtube_response item = Inr r \<longrightarrow>
      well_shaped r \<and> set (map fst r) \<subseteq> set record_keys \<and> JNull \<notin> snd ` set r) \<and>
   (search_youtube execute c subject video_list_size amount_weeks w = (Inr records, w') \<longrightarrow>
      (\<forall>r \<in> set records. well_shaped r))"
proof -
  have a: "\<exists>r. parse_youtube_response item = Inr r \<and> well_shaped r" if "raw_item item"
    using raw_item_parse [OF that] well_shaped_parse by blast
  have b: "well_shaped r \<and> set (map fst r) \<subseteq> set record_keys \<and> JNull \<notin> snd ` set r"
    if "parse_youtube_response item = Inr r"
    using well_shaped_parse [OF that] parse_shape(1,2) [OF that] by simp
  have d: "\<forall>r \<in> set records. well_shaped r"
    if run: "search_youtube execute c subject video_list_size amount_weeks w = (Inr records, w')"
  proof
    fix r assume r: "r \<in> set records"
    from search_youtube_Inr [OF run] obtain pa plan rss where
      fb: "fetch_batches execute subject pa plan JNull [] w = (Inr rss, w')" and
      records: "records = concat rss" by blast
    have "fst (fetch_batches execute subject pa plan JNull [] w) = Inr rss"
      using fb by simp
    from calls_made_success [OF this] obtain pages rs where
      pr: "map page_records pages = map Inr rs" and "rss = [] @ rs" by blast
    then have rs: "records = concat rs" using records by simp
    from pages_records_items [OF pr] obtain itemss where
      parsed: "map parse_youtube_response (concat itemss) = map Inr records"
      unfolding rs by blast
    have "Inr r \<in> set (map Inr records)" using r by simp
    then have "Inr r \<in> set (map parse_youtube_response (concat itemss))"
      using parsed by simp
    then obtain it where "parse_youtube_response it = Inr r" by auto
    then show "well_shaped r" by (rule well_shaped_parse)
  qed
  show ?thesis using a b d by blast
qed

theorem result_records_well_shaped_witness:
  "raw_item fake_item \<and>
   parse_youtube_response fake_item = Inr fake_record \<and>
   search_youtube scripted fake_clock ''langchain'' 150 4 restart_script =
     (Inr [fake_record, fake_record, fake_record], []) \<and>
   well_shaped fake_record \<and> JNull \<notin> snd ` set fake_record"
proof -
  have raw: "raw_item fake_item" by code_simp
  have parsed: "parse_youtube_response fake_item = Inr fake_record" by code_simp
  have run: "search_youtube scripted fake_clock ''langchain'' 150 4 restart_script =
     (Inr [fake_record, fake_record, fake_record], [])" by code_simp
  note t = result_records_well_shaped [THEN conjunct2, THEN conjunct1, THEN mp, OF parsed]
  have shaped: "well_shaped fake_record" by (rule t [THEN conjunct1])
  have nonnull: "JNull \<notin> snd ` set fake_record" by (rule t [THEN conjunct2, THEN conjunct2])
  from raw parsed run shaped nonnull show ?thesis by (intro conjI)
qed

text \<open>
  C4, where the source departs from it. The lower bound is the naive local time of the
  machine minus the weeks, printed with a literal \<open>Z\<close>: the offset of the local zone
  is never taken out. On a machine nine hours ahead of UTC, at the instant
  2023-11-14T22:13:20 UTC and with four weeks, the driver sends
  \<open>2023-10-18T07:13:20Z\<close>, where the instant four weeks before now is
  \<open>2023-10-17T22:13:20Z\<close>; on a machine in UTC it sends the latter.
\<close>

theorem published_after_is_local_time:
  "week_ago_formatted tokyo_clock 4 = Inr ''2023-10-18T07:13:20Z'' \<and>
   strftime_iso_z (posix_seconds tokyo_clock - 604800 * 4) = ''2023-10-17T22:13:20Z'' \<and>
   week_ago_formatted fake_clock 4 = Inr ''2023-10-17T22:13:20Z'' \<and>
   posix_seconds fake_clock = posix_seconds tokyo_clock \<and>
   search_youtube (logged scripted) tokyo_clock ''langchain'' 50 4
       ([Inr (page [fake_item] JNull)], []) =
     (Inr [fake_record],
      ([], [(\<lparr>part = ''snippet'', maxResults = 50, q = ''langchain'',
               publishedAfter = ''2023-10-18T07:13:20Z'', pageToken = JNull\<rparr>,
             Inr (page [fake_item] JNull))]))"
  by code_simp

end
